theory Spec2Isabelle
  imports Main
begin

section \<open>The block puzzle engine of block\_puzzle\_game.jsx\<close>

text \<open>
  The component keeps four pieces of game state (\<open>grid\<close>, \<open>queue\<close>, \<open>selected\<close>,
  \<open>score\<close>) and changes them in two event handlers: a click on a queue entry selects a
  block, a click on a board cell calls \<open>placeBlock\<close> when a block is selected.
  The fifth piece of state, \<open>explosions\<close>, is written by \<open>triggerExplosion\<close> and its timer
  and read by the rendering only; it never flows back into the other four and is left out.

  JavaScript values are modelled as follows. A board cell is \<open>null\<close> or a colour string:
  \<open>string option\<close>, with \<open>None\<close> for \<open>null\<close>. An array is a list. Reading \<open>xs[i]\<close> outside
  the array yields \<open>undefined\<close>; \<open>elemAt\<close> returns \<open>None\<close> there. Reading a property of
  \<open>undefined\<close> throws a TypeError. Numbers are integers (the score stays far below
  \<open>2 ^ 53\<close>, where JavaScript numbers are exact).
\<close>

subsection \<open>Data\<close>

datatype error = TypeError | OutsideModel

type_synonym cell = "string option"

type_synonym grid = "cell list list"

record block =
  color :: string
  shape :: "nat list list"

record game =
  grid :: grid
  queue :: "block list"
  selected :: "block option"
  score :: int

definition GRID_SIZE :: nat where
  "GRID_SIZE = 8"

definition emptyGrid :: grid where
  "emptyGrid = replicate GRID_SIZE (replicate GRID_SIZE None)"

definition SHAPES :: "block list" where
  "SHAPES =
    [\<lparr>color = ''#ff6b6b'', shape = [[1, 1], [1, 1]]\<rparr>,
     \<lparr>color = ''#4dabf7'', shape = [[1, 1, 1]]\<rparr>,
     \<lparr>color = ''#51cf66'', shape = [[1, 0], [1, 1]]\<rparr>,
     \<lparr>color = ''#ffa94d'', shape = [[1, 1, 1, 1]]\<rparr>,
     \<lparr>color = ''#845ef7'', shape = [[1, 1, 0], [0, 1, 1]]\<rparr>,
     \<lparr>color = ''#f06595'', shape = [[1, 1, 1], [0, 1, 0]]\<rparr>,
     \<lparr>color = ''#20c997'', shape = [[1], [1], [1]]\<rparr>,
     \<lparr>color = ''#ffd43b'', shape = [[1, 1, 1], [1, 0, 0]]\<rparr>]"

text \<open>
  \<open>getRandomBlock\<close> draws \<open>Math.floor(Math.random() * SHAPES.length)\<close>. The drawn index
  is a parameter \<open>k\<close> of the model; \<open>Math.random()\<close> lies in \<open>[0, 1)\<close>, so \<open>k < length SHAPES\<close>.
\<close>

definition getRandomBlock :: "nat \<Rightarrow> block" where
  "getRandomBlock k = SHAPES ! k"

definition initialGame :: "nat \<Rightarrow> nat \<Rightarrow> nat \<Rightarrow> game" where
  "initialGame k1 k2 k3 =
    \<lparr>grid = emptyGrid,
     queue = [getRandomBlock k1, getRandomBlock k2, getRandomBlock k3],
     selected = None,
     score = 0\<rparr>"

subsection \<open>Array access\<close>

text \<open>\<open>xs[i]\<close> as an expression: \<open>None\<close> is \<open>undefined\<close>.\<close>

definition elemAt :: "'a list \<Rightarrow> int \<Rightarrow> 'a option" where
  "elemAt xs i = (if 0 \<le> i \<and> i < int (length xs) then Some (xs ! nat i) else None)"

text \<open>
  \<open>xs[i] = v\<close> as a statement. Inside the array it replaces the element. Outside,
  JavaScript would grow the array (leaving holes) or attach a property to it, neither of
  which a list represents: the model stops with \<open>OutsideModel\<close>. Lemma
  \<open>place_after_canPlace\<close> and lemma \<open>handleClears_wf\<close> show that no such write happens on
  a board of \<open>GRID_SIZE\<close> rows and columns.
\<close>

definition store :: "'a list \<Rightarrow> int \<Rightarrow> 'a \<Rightarrow> error + 'a list" where
  "store xs i v =
    (if 0 \<le> i \<and> i < int (length xs) then Inr (xs[nat i := v]) else Inl OutsideModel)"

text \<open>\<open>g[y][x] = v\<close>: a TypeError when \<open>g[y]\<close> is \<open>undefined\<close>.\<close>

definition setCell :: "grid \<Rightarrow> int \<Rightarrow> int \<Rightarrow> cell \<Rightarrow> error + grid" where
  "setCell g y x v =
    (case elemAt g y of
       None \<Rightarrow> Inl TypeError
     | Some row \<Rightarrow>
         (case store row x v of
            Inl e \<Rightarrow> Inl e
          | Inr row' \<Rightarrow> Inr (g[nat y := row'])))"

subsection \<open>placeBlock: the validation loop\<close>

text \<open>
  The condition of line 47 for the cell \<open>(y, x) = (r + i, c + j)\<close>:
  \<open>y >= GRID_SIZE || x >= GRID_SIZE || newGrid[y][x] !== null\<close>, evaluated left to right.
  \<open>undefined !== null\<close> is true, so a column left of the board counts as blocked, while
  a row above the board throws.
\<close>

definition blocked :: "grid \<Rightarrow> int \<Rightarrow> int \<Rightarrow> error + bool" where
  "blocked g y x =
    (if int GRID_SIZE \<le> y \<or> int GRID_SIZE \<le> x then Inr True
     else
       (case elemAt g y of
          None \<Rightarrow> Inl TypeError
        | Some row \<Rightarrow> Inr (elemAt row x \<noteq> Some None)))"

text \<open>
  The inner loop over \<open>j\<close>, on what is left of \<open>shape[i]\<close>. \<open>Inr False\<close> is the
  \<open>return false\<close> of line 48, \<open>Inr True\<close> is the loop running to its end.
\<close>

fun checkCols :: "grid \<Rightarrow> int \<Rightarrow> int \<Rightarrow> nat \<Rightarrow> nat \<Rightarrow> nat list \<Rightarrow> error + bool" where
  "checkCols g r c i j [] = Inr True"
| "checkCols g r c i j (v # vs) =
    (if v = 1 then
       (case blocked g (r + int i) (c + int j) of
          Inl e \<Rightarrow> Inl e
        | Inr b \<Rightarrow> if b then Inr False else checkCols g r c i (Suc j) vs)
     else checkCols g r c i (Suc j) vs)"

fun checkRows :: "grid \<Rightarrow> int \<Rightarrow> int \<Rightarrow> nat \<Rightarrow> nat list list \<Rightarrow> error + bool" where
  "checkRows g r c i [] = Inr True"
| "checkRows g r c i (row # rows) =
    (case checkCols g r c i 0 row of
       Inl e \<Rightarrow> Inl e
     | Inr ok \<Rightarrow> if ok then checkRows g r c (Suc i) rows else Inr False)"

text \<open>Lines 44 to 52, which the specification calls \<open>canPlace\<close>.\<close>

definition canPlace :: "grid \<Rightarrow> int \<Rightarrow> int \<Rightarrow> nat list list \<Rightarrow> error + bool" where
  "canPlace g r c sh = checkRows g r c 0 sh"

subsection \<open>placeBlock: the writing loop\<close>

fun writeCols :: "grid \<Rightarrow> int \<Rightarrow> int \<Rightarrow> string \<Rightarrow> nat \<Rightarrow> nat \<Rightarrow> nat list \<Rightarrow> error + grid" where
  "writeCols g r c col i j [] = Inr g"
| "writeCols g r c col i j (v # vs) =
    (if v = 1 then
       (case setCell g (r + int i) (c + int j) (Some col) of
          Inl e \<Rightarrow> Inl e
        | Inr g' \<Rightarrow> writeCols g' r c col i (Suc j) vs)
     else writeCols g r c col i (Suc j) vs)"

fun writeRows :: "grid \<Rightarrow> int \<Rightarrow> int \<Rightarrow> string \<Rightarrow> nat \<Rightarrow> nat list list \<Rightarrow> error + grid" where
  "writeRows g r c col i [] = Inr g"
| "writeRows g r c col i (row # rows) =
    (case writeCols g r c col i 0 row of
       Inl e \<Rightarrow> Inl e
     | Inr g' \<Rightarrow> writeRows g' r c col (Suc i) rows)"

text \<open>Lines 54 to 58.\<close>

definition place :: "grid \<Rightarrow> int \<Rightarrow> int \<Rightarrow> block \<Rightarrow> error + grid" where
  "place g r c b = writeRows g r c (color b) 0 (shape b)"

subsection \<open>handleClears\<close>

text \<open>\<open>grid[r].every((cell) => cell !== null)\<close>\<close>

definition isRowFull :: "grid \<Rightarrow> nat \<Rightarrow> error + bool" where
  "isRowFull g r =
    (case elemAt g (int r) of
       None \<Rightarrow> Inl TypeError
     | Some row \<Rightarrow> Inr (list_all (\<lambda>cell. cell \<noteq> None) row))"

text \<open>\<open>grid.every((row) => row[c] !== null)\<close>\<close>

definition isColFull :: "grid \<Rightarrow> nat \<Rightarrow> bool" where
  "isColFull g c = list_all (\<lambda>row. elemAt row (int c) \<noteq> Some None) g"

text \<open>The loop of line 75 over the row indices still to visit, pushing onto \<open>acc\<close>.\<close>

fun rowsLoop :: "grid \<Rightarrow> nat list \<Rightarrow> nat list \<Rightarrow> error + nat list" where
  "rowsLoop g [] acc = Inr acc"
| "rowsLoop g (r # rs) acc =
    (case isRowFull g r of
       Inl e \<Rightarrow> Inl e
     | Inr full \<Rightarrow> rowsLoop g rs (if full then acc @ [r] else acc))"

definition rowsToClear :: "grid \<Rightarrow> error + nat list" where
  "rowsToClear g = rowsLoop g [0..<GRID_SIZE] []"

definition colsToClear :: "grid \<Rightarrow> nat list" where
  "colsToClear g = filter (isColFull g) [0..<GRID_SIZE]"

text \<open>\<open>newGrid[r].fill(null)\<close>\<close>

definition clearRow :: "grid \<Rightarrow> nat \<Rightarrow> error + grid" where
  "clearRow g r =
    (case elemAt g (int r) of
       None \<Rightarrow> Inl TypeError
     | Some row \<Rightarrow> Inr (g[r := replicate (length row) None]))"

fun clearRows :: "grid \<Rightarrow> nat list \<Rightarrow> error + grid" where
  "clearRows g [] = Inr g"
| "clearRows g (r # rs) =
    (case clearRow g r of
       Inl e \<Rightarrow> Inl e
     | Inr g' \<Rightarrow> clearRows g' rs)"

text \<open>\<open>newGrid.forEach((row) => (row[c] = null))\<close>\<close>

fun clearCol :: "grid \<Rightarrow> nat \<Rightarrow> error + grid" where
  "clearCol [] c = Inr []"
| "clearCol (row # rows) c =
    (case store row (int c) None of
       Inl e \<Rightarrow> Inl e
     | Inr row' \<Rightarrow>
         (case clearCol rows c of
            Inl e \<Rightarrow> Inl e
          | Inr rows' \<Rightarrow> Inr (row' # rows')))"

fun clearCols :: "grid \<Rightarrow> nat list \<Rightarrow> error + grid" where
  "clearCols g [] = Inr g"
| "clearCols g (c # cs) =
    (case clearCol g c of
       Inl e \<Rightarrow> Inl e
     | Inr g' \<Rightarrow> clearCols g' cs)"

text \<open>
  Lines 71 to 91. The argument \<open>g\<close> is the grid handed over by \<open>placeBlock\<close>; \<open>s\<close> is
  the pending state, in which \<open>setGrid\<close> and \<open>setScore\<close> take effect. An error leaves
  \<open>s\<close> as it was handed in: both setters come after the last statement that can throw.
\<close>

definition handleClears :: "grid \<Rightarrow> game \<Rightarrow> error + game" where
  "handleClears g s =
    (case rowsToClear g of
       Inl e \<Rightarrow> Inl e
     | Inr rows \<Rightarrow>
         (let cols = colsToClear g in
          if rows = [] \<and> cols = [] then Inr s
          else
            (case clearRows g rows of
               Inl e \<Rightarrow> Inl e
             | Inr g1 \<Rightarrow>
                 (case clearCols g1 cols of
                    Inl e \<Rightarrow> Inl e
                  | Inr g2 \<Rightarrow>
                      Inr (s\<lparr>grid := g2,
                             score := score s + (int (length rows) + int (length cols)) * 200\<rparr>)))))"

subsection \<open>updateQueue, placeBlock and the event handlers\<close>

text \<open>Lines 66 to 69; \<open>k\<close> is the index drawn by \<open>getRandomBlock\<close>.\<close>

definition updateQueue :: "nat \<Rightarrow> game \<Rightarrow> game" where
  "updateQueue k s = s\<lparr>queue := drop 1 (queue s) @ [getRandomBlock k], selected := None\<rparr>"

text \<open>
  Lines 40 to 64. The result pairs what the call returned (\<open>Inr\<close> of the boolean) or threw
  (\<open>Inl\<close>) with the state after the handler: the updates queued by the setters that ran.
\<close>

definition placeBlock :: "int \<Rightarrow> int \<Rightarrow> block \<Rightarrow> nat \<Rightarrow> game \<Rightarrow> (error + bool) \<times> game" where
  "placeBlock r c b k s =
    (case canPlace (grid s) r c (shape b) of
       Inl e \<Rightarrow> (Inl e, s)
     | Inr ok \<Rightarrow>
         if \<not> ok then (Inr False, s)
         else
           (case place (grid s) r c b of
              Inl e \<Rightarrow> (Inl e, s)
            | Inr newGrid \<Rightarrow>
                (case handleClears newGrid (s\<lparr>grid := newGrid\<rparr>) of
                   Inl e \<Rightarrow> (Inl e, s\<lparr>grid := newGrid\<rparr>)
                 | Inr s' \<Rightarrow> (Inr True, updateQueue k s'))))"

text \<open>Line 164: \<open>onClick={() => setSelected(b)}\<close> on a queue entry.\<close>

definition select :: "block \<Rightarrow> game \<Rightarrow> game" where
  "select b s = s\<lparr>selected := Some b\<rparr>"

text \<open>
  Line 111: \<open>onClick={() => selected && placeBlock(r, c, selected)}\<close> on a board cell.
  The handler's value is dropped; the result keeps the error, if one was thrown.
\<close>

definition onCellClick :: "int \<Rightarrow> int \<Rightarrow> nat \<Rightarrow> game \<Rightarrow> error option \<times> game" where
  "onCellClick r c k s =
    (case selected s of
       None \<Rightarrow> (None, s)
     | Some b \<Rightarrow>
         (case placeBlock r c b k s of
            (Inl e, s') \<Rightarrow> (Some e, s')
          | (Inr _, s') \<Rightarrow> (None, s')))"

text \<open>
  One step of a session. The rendering offers a click on each entry of the queue and on
  each cell \<open>(r, c)\<close> of the grid (lines 106, 107 and 158), and nothing else.
\<close>

inductive step :: "game \<Rightarrow> game \<Rightarrow> bool" where
  selectStep: "b \<in> set (queue s) \<Longrightarrow> step s (select b s)"
| clickStep: "r < length (grid s) \<Longrightarrow> c < length (grid s ! r) \<Longrightarrow> k < length SHAPES \<Longrightarrow>
     step s (snd (onCellClick (int r) (int c) k s))"

inductive reachable :: "game \<Rightarrow> bool" where
  reachStart: "k1 < length SHAPES \<Longrightarrow> k2 < length SHAPES \<Longrightarrow> k3 < length SHAPES \<Longrightarrow>
     reachable (initialGame k1 k2 k3)"
| reachStep: "reachable s \<Longrightarrow> step s s' \<Longrightarrow> reachable s'"

subsection \<open>Notions used in the statements\<close>

text \<open>A board has \<open>GRID_SIZE\<close> rows of \<open>GRID_SIZE\<close> cells.\<close>

definition wfGrid :: "grid \<Rightarrow> bool" where
  "wfGrid g = (length g = GRID_SIZE \<and> list_all (\<lambda>row. length row = GRID_SIZE) g)"

text \<open>\<open>(i, j)\<close> is an occupied offset of the shape: \<open>shape[i][j] === 1\<close>.\<close>

definition occupiedOffset :: "nat list list \<Rightarrow> nat \<Rightarrow> nat \<Rightarrow> bool" where
  "occupiedOffset sh i j = (i < length sh \<and> j < length (sh ! i) \<and> sh ! i ! j = 1)"

text \<open>The index pair \<open>(y, x)\<close> lies on the board.\<close>

definition onBoard :: "int \<Rightarrow> int \<Rightarrow> bool" where
  "onBoard y x = (0 \<le> y \<and> y < int GRID_SIZE \<and> 0 \<le> x \<and> x < int GRID_SIZE)"

text \<open>Row \<open>y\<close>, column \<open>x\<close> of a board is fully occupied.\<close>

definition rowFull :: "grid \<Rightarrow> nat \<Rightarrow> bool" where
  "rowFull g y = list_all (\<lambda>x. g ! y ! x \<noteq> None) [0..<GRID_SIZE]"

definition colFull :: "grid \<Rightarrow> nat \<Rightarrow> bool" where
  "colFull g x = list_all (\<lambda>y. g ! y ! x \<noteq> None) [0..<GRID_SIZE]"

definition fullRows :: "grid \<Rightarrow> nat list" where
  "fullRows g = filter (rowFull g) [0..<GRID_SIZE]"

definition fullCols :: "grid \<Rightarrow> nat list" where
  "fullCols g = filter (colFull g) [0..<GRID_SIZE]"

definition noFullLine :: "grid \<Rightarrow> bool" where
  "noFullLine g = (fullRows g = [] \<and> fullCols g = [])"

text \<open>
  The condition of line 47 as a truth value, for a row index that is not negative: the
  cell is below or right of the board, left of it, or holds a colour.
\<close>

definition blockedAt :: "grid \<Rightarrow> int \<Rightarrow> int \<Rightarrow> bool" where
  "blockedAt g y x = (int GRID_SIZE \<le> y \<or> int GRID_SIZE \<le> x \<or> x < 0 \<or> g ! nat y ! nat x \<noteq> None)"

text \<open>The invariant of a session.\<close>

definition gameInv :: "game \<Rightarrow> bool" where
  "gameInv s = (wfGrid (grid s) \<and> noFullLine (grid s) \<and> length (queue s) = 3 \<and> 0 \<le> score s)"

text \<open>
  Two positions used as examples. On \<open>lineBoard\<close> the four-cell line lies at the left
  end of row 0. On \<open>cornerBoard\<close> row 0 and column 0 are full except for the cells that
  the small L block covers when it is placed at the top left corner.
\<close>

definition lineBoard :: grid where
  "lineBoard =
    (replicate 4 (Some ''#ffa94d'') @ replicate 4 None) # replicate 7 (replicate 8 None)"

definition cornerBoard :: grid where
  "cornerBoard =
    (None # replicate 7 (Some ''#4dabf7'')) #
    replicate 8 None #
    replicate 6 (Some ''#20c997'' # replicate 7 None)"

definition cornerGame :: game where
  "cornerGame =
    \<lparr>grid = cornerBoard, queue = [SHAPES ! 0, SHAPES ! 1, SHAPES ! 2],
     selected = Some (SHAPES ! 2), score = 1000\<rparr>"

definition lineGame :: game where
  "lineGame =
    \<lparr>grid = lineBoard, queue = [SHAPES ! 0, SHAPES ! 1, SHAPES ! 3],
     selected = Some (SHAPES ! 3), score = 0\<rparr>"

section \<open>The validation loop on a board\<close>

lemma wfGrid_length: "wfGrid g \<Longrightarrow> length g = GRID_SIZE"
  by (simp add: wfGrid_def)

lemma wfGrid_row_length: "wfGrid g \<Longrightarrow> y < GRID_SIZE \<Longrightarrow> length (g ! y) = GRID_SIZE"
  by (simp add: wfGrid_def list_all_length)

lemma wfGrid_emptyGrid: "wfGrid emptyGrid"
  by (simp add: wfGrid_def emptyGrid_def list_all_length)

lemma elemAt_row: "wfGrid g \<Longrightarrow> 0 \<le> y \<Longrightarrow> y < int GRID_SIZE \<Longrightarrow> elemAt g y = Some (g ! nat y)"
  by (simp add: elemAt_def wfGrid_length)

lemma elemAt_row_outside: "wfGrid g \<Longrightarrow> y < 0 \<Longrightarrow> elemAt g y = None"
  by (simp add: elemAt_def)

lemma blocked_wf:
  assumes "wfGrid g" and "0 \<le> y"
  shows "blocked g y x = Inr (blockedAt g y x)"
proof (cases "int GRID_SIZE \<le> y \<or> int GRID_SIZE \<le> x")
  case True
  then show ?thesis by (auto simp: blocked_def blockedAt_def)
next
  case False
  then have y: "y < int GRID_SIZE" and x: "x < int GRID_SIZE" by auto
  from assms y have row: "elemAt g y = Some (g ! nat y)" by (rule elemAt_row)
  from assms y have len: "length (g ! nat y) = GRID_SIZE"
    by (intro wfGrid_row_length) auto
  show ?thesis
    using False row len x by (auto simp: blocked_def blockedAt_def elemAt_def)
qed

lemma blocked_False_onBoard:
  assumes "wfGrid g" and "blocked g y x = Inr False"
  shows "onBoard y x \<and> g ! nat y ! nat x = None"
proof -
  from assms(2) have up: "y < int GRID_SIZE" "x < int GRID_SIZE"
    by (auto simp: blocked_def split: if_splits)
  from assms(2) up have "elemAt g y \<noteq> None"
    by (auto simp: blocked_def split: if_splits option.splits)
  with assms(1) have y0: "0 \<le> y" by (auto simp: elemAt_def split: if_splits)
  from blocked_wf [OF assms(1) y0, of x] assms(2) have "\<not> blockedAt g y x" by simp
  with up y0 show ?thesis by (auto simp: blockedAt_def onBoard_def)
qed

lemma checkCols_wf:
  assumes "wfGrid g" and "\<forall>j' < length vs. vs ! j' = 1 \<longrightarrow> 0 \<le> r + int i"
  shows "checkCols g r c i j vs =
    Inr (\<forall>j' < length vs. vs ! j' = 1 \<longrightarrow> \<not> blockedAt g (r + int i) (c + int (j + j')))"
  using assms(2)
proof (induction vs arbitrary: j)
  case Nil
  then show ?case by simp
next
  case (Cons v vs)
  from Cons.prems have rest: "\<forall>j' < length vs. vs ! j' = 1 \<longrightarrow> 0 \<le> r + int i"
    by auto
  note IH = Cons.IH [OF rest, of "Suc j"]
  show ?case
  proof (cases "v = 1")
    case True
    with Cons.prems have "0 \<le> r + int i" by auto
    then have b: "blocked g (r + int i) (c + int j) = Inr (blockedAt g (r + int i) (c + int j))"
      using assms(1) by (simp add: blocked_wf)
    show ?thesis using True b IH by (auto simp: All_less_Suc2 ac_simps)
  next
    case False
    then show ?thesis using IH by (auto simp: All_less_Suc2 ac_simps)
  qed
qed

lemma checkRows_wf:
  assumes "wfGrid g"
    and "\<forall>i' < length rows. \<forall>j < length (rows ! i'). rows ! i' ! j = 1 \<longrightarrow> 0 \<le> r + int (i + i')"
  shows "checkRows g r c i rows =
    Inr (\<forall>i' < length rows. \<forall>j < length (rows ! i'). rows ! i' ! j = 1 \<longrightarrow>
           \<not> blockedAt g (r + int (i + i')) (c + int j))"
  using assms(2)
proof (induction rows arbitrary: i)
  case Nil
  then show ?case by simp
next
  case (Cons row rows)
  from Cons.prems have first: "\<forall>j < length row. row ! j = 1 \<longrightarrow> 0 \<le> r + int i"
    by (auto simp: All_less_Suc2)
  from Cons.prems have rest:
    "\<forall>i' < length rows. \<forall>j < length (rows ! i'). rows ! i' ! j = 1 \<longrightarrow> 0 \<le> r + int (Suc i + i')"
    by (auto simp: All_less_Suc2 ac_simps)
  have cols: "checkCols g r c i 0 row =
      Inr (\<forall>j < length row. row ! j = 1 \<longrightarrow> \<not> blockedAt g (r + int i) (c + int j))"
    using checkCols_wf [OF assms(1) first, of c 0] by simp
  show ?case using cols Cons.IH [OF rest] by (auto simp: All_less_Suc2 ac_simps)
qed

lemma canPlace_wf:
  assumes "wfGrid g" and "\<forall>i j. occupiedOffset sh i j \<longrightarrow> 0 \<le> r + int i"
  shows "canPlace g r c sh =
    Inr (\<forall>i j. occupiedOffset sh i j \<longrightarrow> \<not> blockedAt g (r + int i) (c + int j))"
proof -
  from assms(2) have
    "\<forall>i' < length sh. \<forall>j < length (sh ! i'). sh ! i' ! j = 1 \<longrightarrow> 0 \<le> r + int (0 + i')"
    by (auto simp: occupiedOffset_def)
  from checkRows_wf [OF assms(1) this, of c] show ?thesis
    by (auto simp: canPlace_def occupiedOffset_def)
qed

text \<open>Every shape of the catalog has a cell at offset \<open>(0, 0)\<close>, which is checked first.\<close>

lemma canPlace_right_of_board:
  "b \<in> set SHAPES \<Longrightarrow> int GRID_SIZE \<le> c \<Longrightarrow> canPlace g r c (shape b) = Inr False"
  by (auto simp: SHAPES_def canPlace_def blocked_def)

section \<open>The writing loop on a board\<close>

lemma store_length: "store xs i v = Inr ys \<Longrightarrow> length ys = length xs"
  by (auto simp: store_def split: if_splits)

lemma setCell_wfGrid:
  assumes "setCell g y x v = Inr g'" and "wfGrid g"
  shows "wfGrid g'"
proof -
  from assms(1) obtain row row' where
    row: "elemAt g y = Some row" and st: "store row x v = Inr row'" and g': "g' = g[nat y := row']"
    by (auto simp: setCell_def split: option.splits sum.splits)
  from row have "row \<in> set g" by (auto simp: elemAt_def split: if_splits)
  with assms(2) have "length row = GRID_SIZE" by (auto simp: wfGrid_def list_all_iff)
  with st have "length row' = GRID_SIZE" by (simp add: store_length)
  with assms(2) show ?thesis
    unfolding g' wfGrid_def list_all_iff by (auto dest: set_update_subset_insert [THEN subsetD])
qed

lemma setCell_onBoard:
  assumes "wfGrid g" and "onBoard y x"
  shows "\<exists>g'. setCell g y x v = Inr g'"
proof -
  from assms have y: "0 \<le> y" "y < int GRID_SIZE" and x: "0 \<le> x" "x < int GRID_SIZE"
    by (auto simp: onBoard_def)
  from assms(1) y have row: "elemAt g y = Some (g ! nat y)" by (rule elemAt_row)
  from assms(1) y have "length (g ! nat y) = GRID_SIZE" by (intro wfGrid_row_length) auto
  with x row show ?thesis by (simp add: setCell_def store_def)
qed

lemma writeCols_wfGrid:
  "writeCols g r c col i j vs = Inr g' \<Longrightarrow> wfGrid g \<Longrightarrow> wfGrid g'"
proof (induction vs arbitrary: g j)
  case Nil
  then show ?case by simp
next
  case (Cons v vs)
  then show ?case
    by (auto split: if_splits sum.splits dest: setCell_wfGrid)
qed

lemma writeRows_wfGrid:
  "writeRows g r c col i rows = Inr g' \<Longrightarrow> wfGrid g \<Longrightarrow> wfGrid g'"
proof (induction rows arbitrary: g i)
  case Nil
  then show ?case by simp
next
  case (Cons row rows)
  then show ?case
    by (auto split: sum.splits dest: writeCols_wfGrid)
qed

lemma place_wfGrid: "place g r c b = Inr g' \<Longrightarrow> wfGrid g \<Longrightarrow> wfGrid g'"
  unfolding place_def by (rule writeRows_wfGrid)

lemma writeCols_onBoard:
  assumes "wfGrid g"
    and "\<forall>j' < length vs. vs ! j' = 1 \<longrightarrow> onBoard (r + int i) (c + int (j + j'))"
  shows "\<exists>g'. writeCols g r c col i j vs = Inr g'"
  using assms
proof (induction vs arbitrary: g j)
  case Nil
  then show ?case by simp
next
  case (Cons v vs)
  from Cons.prems(2) have rest:
    "\<forall>j' < length vs. vs ! j' = 1 \<longrightarrow> onBoard (r + int i) (c + int (Suc j + j'))"
    by (auto simp: All_less_Suc2 ac_simps)
  show ?case
  proof (cases "v = 1")
    case True
    with Cons.prems(2) have "onBoard (r + int i) (c + int j)" by auto
    with Cons.prems(1) obtain g1 where g1: "setCell g (r + int i) (c + int j) (Some col) = Inr g1"
      using setCell_onBoard by blast
    with Cons.prems(1) have "wfGrid g1" by (auto dest: setCell_wfGrid)
    from Cons.IH [OF this rest] True g1 show ?thesis by simp
  next
    case False
    with Cons.IH [OF Cons.prems(1) rest] show ?thesis by simp
  qed
qed

lemma writeRows_onBoard:
  assumes "wfGrid g"
    and "\<forall>i' < length rows. \<forall>j < length (rows ! i'). rows ! i' ! j = 1 \<longrightarrow>
           onBoard (r + int (i + i')) (c + int j)"
  shows "\<exists>g'. writeRows g r c col i rows = Inr g'"
  using assms
proof (induction rows arbitrary: g i)
  case Nil
  then show ?case by simp
next
  case (Cons row rows)
  from Cons.prems(2) have first:
    "\<forall>j' < length row. row ! j' = 1 \<longrightarrow> onBoard (r + int i) (c + int (0 + j'))"
    by (auto simp: All_less_Suc2)
  from Cons.prems(2) have rest:
    "\<forall>i' < length rows. \<forall>j < length (rows ! i'). rows ! i' ! j = 1 \<longrightarrow>
       onBoard (r + int (Suc i + i')) (c + int j)"
    by (auto simp: All_less_Suc2 ac_simps)
  from writeCols_onBoard [OF Cons.prems(1) first] obtain g1 where
    g1: "writeCols g r c col i 0 row = Inr g1" by blast
  with Cons.prems(1) have "wfGrid g1" by (auto dest: writeCols_wfGrid)
  from Cons.IH [OF this rest] g1 show ?case by simp
qed

text \<open>What an accepted validation says about each occupied offset.\<close>

lemma checkCols_True:
  "checkCols g r c i j vs = Inr True \<Longrightarrow> j' < length vs \<Longrightarrow> vs ! j' = 1 \<Longrightarrow>
   blocked g (r + int i) (c + int (j + j')) = Inr False"
proof (induction vs arbitrary: j j')
  case Nil
  then show ?case by simp
next
  case (Cons v vs)
  show ?case
  proof (cases j')
    case 0
    with Cons.prems show ?thesis by (auto split: if_splits sum.splits)
  next
    case (Suc n)
    from Cons.prems(1) have "checkCols g r c i (Suc j) vs = Inr True"
      by (auto split: if_splits sum.splits)
    from Cons.IH [OF this, of n] Cons.prems Suc show ?thesis by (simp add: ac_simps)
  qed
qed

lemma checkRows_True:
  "checkRows g r c i rows = Inr True \<Longrightarrow> i' < length rows \<Longrightarrow> j < length (rows ! i') \<Longrightarrow>
   rows ! i' ! j = 1 \<Longrightarrow> blocked g (r + int (i + i')) (c + int j) = Inr False"
proof (induction rows arbitrary: i i')
  case Nil
  then show ?case by simp
next
  case (Cons row rows)
  from Cons.prems(1) have cols: "checkCols g r c i 0 row = Inr True"
    and rest: "checkRows g r c (Suc i) rows = Inr True"
    by (auto split: if_splits sum.splits)
  show ?case
  proof (cases i')
    case 0
    with checkCols_True [OF cols, of j] Cons.prems show ?thesis by simp
  next
    case (Suc n)
    with Cons.IH [OF rest, of n] Cons.prems show ?thesis by (simp add: ac_simps)
  qed
qed

lemma canPlace_True_onBoard:
  assumes "wfGrid g" and "canPlace g r c sh = Inr True" and "occupiedOffset sh i j"
  shows "onBoard (r + int i) (c + int j) \<and> g ! nat (r + int i) ! nat (c + int j) = None"
proof -
  from assms(2,3) have "blocked g (r + int (0 + i)) (c + int j) = Inr False"
    unfolding canPlace_def occupiedOffset_def by (intro checkRows_True) auto
  with assms(1) show ?thesis by (auto dest: blocked_False_onBoard)
qed

lemma place_after_canPlace:
  assumes "wfGrid g" and "canPlace g r c (shape b) = Inr True"
  shows "\<exists>g'. place g r c b = Inr g' \<and> wfGrid g'"
proof -
  have "\<forall>i' < length (shape b). \<forall>j < length (shape b ! i'). shape b ! i' ! j = 1 \<longrightarrow>
      onBoard (r + int (0 + i')) (c + int j)"
    using canPlace_True_onBoard [OF assms] by (auto simp: occupiedOffset_def)
  from writeRows_onBoard [OF assms(1) this] obtain g' where "place g r c b = Inr g'"
    by (auto simp: place_def)
  with assms(1) show ?thesis by (auto dest: place_wfGrid)
qed

subsection \<open>The cells after the writing loop\<close>

lemma setCell_cells:
  assumes "wfGrid g" and "setCell g y0 x0 v = Inr g'" and "y < GRID_SIZE" and "x < GRID_SIZE"
  shows "g' ! y ! x = (if int y = y0 \<and> int x = x0 then v else g ! y ! x)"
proof -
  from assms(2) obtain row row' where
    row: "elemAt g y0 = Some row" and st: "store row x0 v = Inr row'" and g': "g' = g[nat y0 := row']"
    by (auto simp: setCell_def split: option.splits sum.splits)
  from row have y0: "0 \<le> y0" "nat y0 < length g" and r: "row = g ! nat y0"
    by (auto simp: elemAt_def split: if_splits)
  from st have x0: "0 \<le> x0" "nat x0 < length row" and r': "row' = row[nat x0 := v]"
    by (auto simp: store_def split: if_splits)
  show ?thesis
  proof (cases "int y = y0")
    case True
    then have "nat y0 = y" by simp
    with y0 g' r r' x0 show ?thesis by (auto simp: nth_list_update)
  next
    case False
    then have "nat y0 \<noteq> y" using y0 by auto
    with g' False show ?thesis by simp
  qed
qed

lemma writeCols_cells:
  assumes "wfGrid g" and "writeCols g r c col i j vs = Inr g'"
    and "y < GRID_SIZE" and "x < GRID_SIZE"
  shows "g' ! y ! x =
    (if int y = r + int i \<and> (\<exists>j' < length vs. vs ! j' = 1 \<and> int x = c + int (j + j'))
     then Some col else g ! y ! x)"
  using assms(1,2)
proof (induction vs arbitrary: g j)
  case Nil
  then show ?case by simp
next
  case (Cons v vs)
  show ?case
  proof (cases "v = 1")
    case True
    with Cons.prems(2) obtain g1 where
      g1: "setCell g (r + int i) (c + int j) (Some col) = Inr g1"
      and rest: "writeCols g1 r c col i (Suc j) vs = Inr g'"
      by (auto split: sum.splits)
    from Cons.prems(1) g1 have wf1: "wfGrid g1" by (auto dest: setCell_wfGrid)
    have c1: "g1 ! y ! x = (if int y = r + int i \<and> int x = c + int j then Some col else g ! y ! x)"
      using Cons.prems(1) g1 assms(3,4) by (rule setCell_cells)
    from Cons.IH [OF wf1 rest] c1 True show ?thesis
      by (auto simp: Ex_less_Suc2 ac_simps)
  next
    case False
    with Cons.prems(2) have rest: "writeCols g r c col i (Suc j) vs = Inr g'" by simp
    from Cons.IH [OF Cons.prems(1) rest] False show ?thesis
      by (auto simp: Ex_less_Suc2 ac_simps)
  qed
qed

lemma writeRows_cells:
  assumes "wfGrid g" and "writeRows g r c col i rows = Inr g'"
    and "y < GRID_SIZE" and "x < GRID_SIZE"
  shows "g' ! y ! x =
    (if \<exists>i' < length rows. \<exists>j < length (rows ! i'). rows ! i' ! j = 1 \<and>
          int y = r + int (i + i') \<and> int x = c + int j
     then Some col else g ! y ! x)"
  using assms(1,2)
proof (induction rows arbitrary: g i)
  case Nil
  then show ?case by simp
next
  case (Cons row rows)
  from Cons.prems(2) obtain g1 where
    g1: "writeCols g r c col i 0 row = Inr g1"
    and rest: "writeRows g1 r c col (Suc i) rows = Inr g'"
    by (auto split: sum.splits)
  from Cons.prems(1) g1 have wf1: "wfGrid g1" by (auto dest: writeCols_wfGrid)
  have c1: "g1 ! y ! x =
      (if int y = r + int i \<and> (\<exists>j < length row. row ! j = 1 \<and> int x = c + int j)
       then Some col else g ! y ! x)"
    using writeCols_cells [OF Cons.prems(1) g1 assms(3,4)] by simp
  from Cons.IH [OF wf1 rest] c1 show ?case
    by (auto simp: Ex_less_Suc2 ac_simps)
qed

lemma place_cells:
  assumes "wfGrid g" and "place g r c b = Inr g'" and "y < GRID_SIZE" and "x < GRID_SIZE"
  shows "g' ! y ! x =
    (if \<exists>i j. occupiedOffset (shape b) i j \<and> int y = r + int i \<and> int x = c + int j
     then Some (color b) else g ! y ! x)"
proof -
  have "(\<exists>i' < length (shape b). \<exists>j < length (shape b ! i'). shape b ! i' ! j = 1 \<and>
          int y = r + int (0 + i') \<and> int x = c + int j) =
        (\<exists>i j. occupiedOffset (shape b) i j \<and> int y = r + int i \<and> int x = c + int j)"
    by (auto simp: occupiedOffset_def)
  with writeRows_cells [OF assms(1) assms(2) [unfolded place_def] assms(3,4)]
  show ?thesis by simp
qed

section \<open>Detecting and clearing full lines on a board\<close>

subsection \<open>Detection\<close>

lemma isRowFull_wf:
  assumes "wfGrid g" and "y < GRID_SIZE"
  shows "isRowFull g y = Inr (rowFull g y)"
proof -
  from assms have row: "elemAt g (int y) = Some (g ! y)" by (simp add: elemAt_def wfGrid_length)
  from assms have "length (g ! y) = GRID_SIZE" by (rule wfGrid_row_length)
  then have "list_all (\<lambda>cell. cell \<noteq> None) (g ! y) = rowFull g y"
    by (simp add: rowFull_def list_all_length)
  with row show ?thesis by (simp add: isRowFull_def)
qed

lemma rowsLoop_wf:
  assumes "wfGrid g" and "\<forall>y \<in> set ys. y < GRID_SIZE"
  shows "rowsLoop g ys acc = Inr (acc @ filter (rowFull g) ys)"
  using assms(2)
proof (induction ys arbitrary: acc)
  case Nil
  then show ?case by simp
next
  case (Cons y ys)
  then have "isRowFull g y = Inr (rowFull g y)" using assms(1) by (simp add: isRowFull_wf)
  with Cons show ?case by simp
qed

lemma rowsToClear_wf: "wfGrid g \<Longrightarrow> rowsToClear g = Inr (fullRows g)"
  by (simp add: rowsToClear_def fullRows_def rowsLoop_wf)

lemma isColFull_wf:
  assumes "wfGrid g" and "x < GRID_SIZE"
  shows "isColFull g x = colFull g x"
proof -
  have "elemAt (g ! y) (int x) = Some (g ! y ! x)" if "y < GRID_SIZE" for y
    using wfGrid_row_length [OF assms(1) that] assms(2) by (simp add: elemAt_def)
  then show ?thesis
    using wfGrid_length [OF assms(1)] by (simp add: isColFull_def colFull_def list_all_length)
qed

lemma colsToClear_wf: "wfGrid g \<Longrightarrow> colsToClear g = fullCols g"
  unfolding colsToClear_def fullCols_def by (rule filter_cong) (simp_all add: isColFull_wf)

subsection \<open>Clearing\<close>

lemma clearRow_wf:
  assumes "wfGrid g" and "y < GRID_SIZE"
  shows "clearRow g y = Inr (g[y := replicate GRID_SIZE None])"
  using assms wfGrid_row_length [OF assms]
  by (simp add: clearRow_def elemAt_def wfGrid_length)

lemma wfGrid_update:
  "wfGrid g \<Longrightarrow> length row = GRID_SIZE \<Longrightarrow> wfGrid (g[y := row])"
  unfolding wfGrid_def list_all_iff by (auto dest: set_update_subset_insert [THEN subsetD])

lemma clearRows_wf:
  assumes "wfGrid g" and "\<forall>y \<in> set ys. y < GRID_SIZE"
  shows "\<exists>g'. clearRows g ys = Inr g' \<and> wfGrid g' \<and>
    (\<forall>y < GRID_SIZE. \<forall>x < GRID_SIZE. g' ! y ! x = (if y \<in> set ys then None else g ! y ! x))"
  using assms
proof (induction ys arbitrary: g)
  case Nil
  then show ?case by simp
next
  case (Cons a ys)
  let ?g1 = "g[a := replicate GRID_SIZE None]"
  from Cons.prems have a: "a < GRID_SIZE" by simp
  have step: "clearRow g a = Inr ?g1" using Cons.prems(1) a by (rule clearRow_wf)
  have wf1: "wfGrid ?g1" using Cons.prems(1) by (simp add: wfGrid_update)
  from Cons.prems(2) have "\<forall>y \<in> set ys. y < GRID_SIZE" by simp
  from Cons.IH [OF wf1 this] obtain g' where
    g': "clearRows ?g1 ys = Inr g'" "wfGrid g'"
      "\<forall>y < GRID_SIZE. \<forall>x < GRID_SIZE. g' ! y ! x = (if y \<in> set ys then None else ?g1 ! y ! x)"
    by blast
  have "g' ! y ! x = (if y \<in> set (a # ys) then None else g ! y ! x)"
    if "y < GRID_SIZE" "x < GRID_SIZE" for y x
    using g'(3) that a wfGrid_length [OF Cons.prems(1)] by (auto simp: nth_list_update)
  with step g'(1,2) show ?case by simp
qed

lemma clearCol_map:
  "list_all (\<lambda>row. x < length row) g \<Longrightarrow> clearCol g x = Inr (map (\<lambda>row. row[x := None]) g)"
  by (induction g) (simp_all add: store_def)

lemma clearCol_wf:
  assumes "wfGrid g" and "x < GRID_SIZE"
  shows "clearCol g x = Inr (map (\<lambda>row. row[x := None]) g)"
  using assms by (intro clearCol_map) (simp add: wfGrid_def list_all_iff)

lemma wfGrid_map_update: "wfGrid g \<Longrightarrow> wfGrid (map (\<lambda>row. row[x := v]) g)"
  by (simp add: wfGrid_def list_all_iff)

lemma clearCols_wf:
  assumes "wfGrid g" and "\<forall>x \<in> set xs. x < GRID_SIZE"
  shows "\<exists>g'. clearCols g xs = Inr g' \<and> wfGrid g' \<and>
    (\<forall>y < GRID_SIZE. \<forall>x < GRID_SIZE. g' ! y ! x = (if x \<in> set xs then None else g ! y ! x))"
  using assms
proof (induction xs arbitrary: g)
  case Nil
  then show ?case by simp
next
  case (Cons a xs)
  let ?g1 = "map (\<lambda>row. row[a := None]) g"
  from Cons.prems have a: "a < GRID_SIZE" by simp
  have step: "clearCol g a = Inr ?g1" using Cons.prems(1) a by (rule clearCol_wf)
  have wf1: "wfGrid ?g1" using Cons.prems(1) by (rule wfGrid_map_update)
  from Cons.prems(2) have "\<forall>x \<in> set xs. x < GRID_SIZE" by simp
  from Cons.IH [OF wf1 this] obtain g' where
    g': "clearCols ?g1 xs = Inr g'" "wfGrid g'"
      "\<forall>y < GRID_SIZE. \<forall>x < GRID_SIZE. g' ! y ! x = (if x \<in> set xs then None else ?g1 ! y ! x)"
    by blast
  have "g' ! y ! x = (if x \<in> set (a # xs) then None else g ! y ! x)"
    if "y < GRID_SIZE" "x < GRID_SIZE" for y x
    using g'(3) that a wfGrid_length [OF Cons.prems(1)] wfGrid_row_length [OF Cons.prems(1) that(1)]
    by (auto simp: nth_list_update)
  with step g'(1,2) show ?case by simp
qed

lemma set_fullRows: "set (fullRows g) = {y. y < GRID_SIZE \<and> rowFull g y}"
  by (auto simp: fullRows_def)

lemma set_fullCols: "set (fullCols g) = {x. x < GRID_SIZE \<and> colFull g x}"
  by (auto simp: fullCols_def)

text \<open>On a board, \<open>handleClears\<close> never throws; this is what it returns.\<close>

lemma handleClears_wf:
  assumes "wfGrid g"
  shows "\<exists>s'. handleClears g s = Inr s' \<and>
    queue s' = queue s \<and> selected s' = selected s \<and>
    score s' = score s + (int (length (fullRows g)) + int (length (fullCols g))) * 200 \<and>
    (if fullRows g = [] \<and> fullCols g = [] then s' = s
     else wfGrid (grid s') \<and>
       (\<forall>y < GRID_SIZE. \<forall>x < GRID_SIZE.
          grid s' ! y ! x = (if rowFull g y \<or> colFull g x then None else g ! y ! x)))"
proof (cases "fullRows g = [] \<and> fullCols g = []")
  case True
  then show ?thesis
    using assms by (simp add: handleClears_def rowsToClear_wf colsToClear_wf)
next
  case False
  have "\<forall>y \<in> set (fullRows g). y < GRID_SIZE" by (simp add: set_fullRows)
  from clearRows_wf [OF assms this] obtain g1 where
    g1: "clearRows g (fullRows g) = Inr g1" "wfGrid g1"
      "\<forall>y < GRID_SIZE. \<forall>x < GRID_SIZE. g1 ! y ! x = (if y \<in> set (fullRows g) then None else g ! y ! x)"
    by blast
  have "\<forall>x \<in> set (fullCols g). x < GRID_SIZE" by (simp add: set_fullCols)
  from clearCols_wf [OF g1(2) this] obtain g2 where
    g2: "clearCols g1 (fullCols g) = Inr g2" "wfGrid g2"
      "\<forall>y < GRID_SIZE. \<forall>x < GRID_SIZE. g2 ! y ! x = (if x \<in> set (fullCols g) then None else g1 ! y ! x)"
    by blast
  have cells: "g2 ! y ! x = (if rowFull g y \<or> colFull g x then None else g ! y ! x)"
    if "y < GRID_SIZE" "x < GRID_SIZE" for y x
    using g1(3) g2(3) that by (simp add: set_fullRows set_fullCols)
  have "handleClears g s =
      Inr (s\<lparr>grid := g2,
             score := score s + (int (length (fullRows g)) + int (length (fullCols g))) * 200\<rparr>)"
    using False assms g1(1) g2(1)
    by (auto simp: handleClears_def rowsToClear_wf colsToClear_wf)
  with False g2(2) cells show ?thesis by auto
qed

section \<open>The whole placement and the invariant\<close>

subsection \<open>No full line is left after a clear\<close>

lemma rowFull_iff: "rowFull g y \<longleftrightarrow> (\<forall>x < GRID_SIZE. g ! y ! x \<noteq> None)"
  by (auto simp: rowFull_def list_all_iff)

lemma colFull_iff: "colFull g x \<longleftrightarrow> (\<forall>y < GRID_SIZE. g ! y ! x \<noteq> None)"
  by (auto simp: colFull_def list_all_iff)

lemma noFullLine_iff:
  "noFullLine g \<longleftrightarrow> (\<forall>y < GRID_SIZE. \<not> rowFull g y) \<and> (\<forall>x < GRID_SIZE. \<not> colFull g x)"
  by (auto simp: noFullLine_def fullRows_def fullCols_def filter_empty_conv)

lemma noFullLine_emptyGrid: "noFullLine emptyGrid"
  by (auto simp: noFullLine_iff rowFull_iff colFull_iff emptyGrid_def GRID_SIZE_def)

lemma cleared_noFullLine:
  assumes cells: "\<forall>y < GRID_SIZE. \<forall>x < GRID_SIZE.
      g' ! y ! x = (if rowFull g y \<or> colFull g x then None else g ! y ! x)"
  shows "noFullLine g'"
proof -
  have pos: "0 < GRID_SIZE" by (simp add: GRID_SIZE_def)
  have "\<not> rowFull g' y" if y: "y < GRID_SIZE" for y
  proof (cases "rowFull g y")
    case True
    with cells y pos have "g' ! y ! 0 = None" by simp
    with pos show ?thesis by (auto simp: rowFull_iff)
  next
    case False
    then obtain x where x: "x < GRID_SIZE" "g ! y ! x = None" by (auto simp: rowFull_iff)
    with cells y have "g' ! y ! x = None" by simp
    with x show ?thesis by (auto simp: rowFull_iff)
  qed
  moreover have "\<not> colFull g' x" if x: "x < GRID_SIZE" for x
  proof (cases "colFull g x")
    case True
    with cells x pos have "g' ! 0 ! x = None" by simp
    with pos show ?thesis by (auto simp: colFull_iff)
  next
    case False
    then obtain y where y: "y < GRID_SIZE" "g ! y ! x = None" by (auto simp: colFull_iff)
    with cells x have "g' ! y ! x = None" by simp
    with y show ?thesis by (auto simp: colFull_iff)
  qed
  ultimately show ?thesis by (simp add: noFullLine_iff)
qed

lemma handleClears_noFullLine:
  assumes "wfGrid pg" and "handleClears pg (s\<lparr>grid := pg\<rparr>) = Inr s1"
  shows "wfGrid (grid s1) \<and> noFullLine (grid s1)"
proof -
  from handleClears_wf [OF assms(1), of "s\<lparr>grid := pg\<rparr>"] assms(2)
  have res: "if fullRows pg = [] \<and> fullCols pg = [] then s1 = s\<lparr>grid := pg\<rparr>
     else wfGrid (grid s1) \<and>
       (\<forall>y < GRID_SIZE. \<forall>x < GRID_SIZE.
          grid s1 ! y ! x = (if rowFull pg y \<or> colFull pg x then None else pg ! y ! x))"
    by auto
  show ?thesis
  proof (cases "fullRows pg = [] \<and> fullCols pg = []")
    case True
    with res assms(1) show ?thesis by (simp add: noFullLine_def)
  next
    case False
    with res show ?thesis by (auto intro: cleared_noFullLine)
  qed
qed

subsection \<open>placeBlock as a whole\<close>

lemma handleClears_frame:
  "handleClears g s = Inr s' \<Longrightarrow>
   queue s' = queue s \<and> selected s' = selected s \<and> score s \<le> score s'"
  by (auto simp: handleClears_def Let_def split: sum.splits if_splits)

lemma placeBlock_cases:
  assumes "wfGrid (grid s)"
  obtains
    (threw) e where "canPlace (grid s) r c (shape b) = Inl e"
      and "placeBlock r c b k s = (Inl e, s)"
  | (rejected) "canPlace (grid s) r c (shape b) = Inr False"
      and "placeBlock r c b k s = (Inr False, s)"
  | (accepted) pg s1 where "canPlace (grid s) r c (shape b) = Inr True"
      and "place (grid s) r c b = Inr pg" and "wfGrid pg"
      and "handleClears pg (s\<lparr>grid := pg\<rparr>) = Inr s1"
      and "placeBlock r c b k s = (Inr True, updateQueue k s1)"
proof (cases "canPlace (grid s) r c (shape b)")
  case (Inl e)
  then show ?thesis by (intro threw [of e]) (simp_all add: placeBlock_def)
next
  case (Inr ok)
  show ?thesis
  proof (cases ok)
    case False
    with Inr show ?thesis by (intro rejected) (simp_all add: placeBlock_def)
  next
    case True
    with Inr have ok: "canPlace (grid s) r c (shape b) = Inr True" by simp
    from place_after_canPlace [OF assms ok] obtain pg where
      pg: "place (grid s) r c b = Inr pg" "wfGrid pg" by blast
    from handleClears_wf [OF pg(2), of "s\<lparr>grid := pg\<rparr>"] obtain s1 where
      s1: "handleClears pg (s\<lparr>grid := pg\<rparr>) = Inr s1" by blast
    from ok pg s1 show ?thesis by (intro accepted [of pg s1]) (simp_all add: placeBlock_def)
  qed
qed

text \<open>Whatever the board: the queue, the selection and the score after \<open>placeBlock\<close>.\<close>

lemma placeBlock_frame:
  assumes "placeBlock r c b k s = (res, s')"
  shows "score s \<le> score s'"
    and "length (queue s) = 3 \<Longrightarrow> length (queue s') = 3"
    and "res = Inr True \<Longrightarrow> queue s' = drop 1 (queue s) @ [getRandomBlock k] \<and> selected s' = None"
    and "res \<noteq> Inr True \<Longrightarrow> queue s' = queue s \<and> selected s' = selected s \<and> score s' = score s"
  using assms
  by (auto simp: placeBlock_def updateQueue_def
      split: sum.splits if_splits dest!: handleClears_frame)

lemma placeBlock_inv:
  assumes "gameInv s"
  shows "gameInv (snd (placeBlock r c b k s))"
proof -
  from assms have wf: "wfGrid (grid s)" by (simp add: gameInv_def)
  obtain res s' where eq: "placeBlock r c b k s = (res, s')" by (cases "placeBlock r c b k s")
  from placeBlock_frame(1,2) [OF eq] assms have
    rest: "length (queue s') = 3" "0 \<le> score s'" by (auto simp: gameInv_def)
  from wf have "wfGrid (grid s') \<and> noFullLine (grid s')"
  proof (cases rule: placeBlock_cases [of s r c b k])
    case (threw e)
    with eq assms show ?thesis by (simp add: gameInv_def)
  next
    case rejected
    with eq assms show ?thesis by (simp add: gameInv_def)
  next
    case (accepted pg s1)
    from handleClears_noFullLine [OF accepted(3,4)] accepted(5) eq show ?thesis
      by (auto simp: updateQueue_def)
  qed
  with rest eq show ?thesis by (simp add: gameInv_def)
qed

lemma step_inv: "step s s' \<Longrightarrow> gameInv s \<Longrightarrow> gameInv s'"
proof (induction rule: step.induct)
  case (selectStep b s)
  then show ?case by (simp add: gameInv_def select_def)
next
  case (clickStep r s c k)
  show ?case
  proof (cases "selected s")
    case None
    with clickStep show ?thesis by (simp add: onCellClick_def)
  next
    case (Some b)
    have "snd (onCellClick (int r) (int c) k s) = snd (placeBlock (int r) (int c) b k s)"
      using Some by (simp add: onCellClick_def split: prod.splits sum.splits)
    with placeBlock_inv [OF clickStep.prems] show ?thesis by simp
  qed
qed

lemma gameInv_initialGame: "gameInv (initialGame k1 k2 k3)"
  by (simp add: gameInv_def initialGame_def wfGrid_emptyGrid noFullLine_emptyGrid)

lemma reachable_inv: "reachable s \<Longrightarrow> gameInv s"
  by (induction rule: reachable.induct) (auto intro: gameInv_initialGame step_inv)

section \<open>Claims\<close>

text \<open>
  C1. \<open>placeBlock\<close> returns \<open>false\<close> exactly when its validation loop found a
  blocking cell, and then the state after the call (board, queue, selection and score)
  is the state before it: nothing of the shape has been written. A click on a board cell
  with that block selected leaves the state the same way and throws nothing.
\<close>

theorem rejected_placement_changes_nothing:
  "(fst (placeBlock r c b k s) = Inr False) = (canPlace (grid s) r c (shape b) = Inr False) \<and>
   (canPlace (grid s) r c (shape b) = Inr False \<longrightarrow>
      placeBlock r c b k s = (Inr False, s) \<and>
      (selected s = Some b \<longrightarrow> onCellClick r c k s = (None, s)))"
  by (auto simp: placeBlock_def onCellClick_def split: sum.splits)

theorem rejected_placement_changes_nothing_witness:
  "canPlace (grid (select (SHAPES ! 0) (initialGame 0 1 2))) 7 7 (shape (SHAPES ! 0)) = Inr False \<and>
   selected (select (SHAPES ! 0) (initialGame 0 1 2)) = Some (SHAPES ! 0) \<and>
   placeBlock 7 7 (SHAPES ! 0) 5 (select (SHAPES ! 0) (initialGame 0 1 2)) =
     (Inr False, select (SHAPES ! 0) (initialGame 0 1 2)) \<and>
   onCellClick 7 7 5 (select (SHAPES ! 0) (initialGame 0 1 2)) =
     (None, select (SHAPES ! 0) (initialGame 0 1 2))"
proof -
  let ?s = "select (SHAPES ! 0) (initialGame 0 1 2)"
  have h1: "canPlace (grid ?s) 7 7 (shape (SHAPES ! 0)) = Inr False" by code_simp
  have h2: "selected ?s = Some (SHAPES ! 0)" by (simp add: select_def)
  from rejected_placement_changes_nothing [of 7 7 "SHAPES ! 0" 5 ?s] h1 h2
  show ?thesis by blast
qed

text \<open>
  C2, as stated, fails. The 2 by 2 square is in the catalog and its offset \<open>(0, 0)\<close>
  at the anchor \<open>(-1, 0)\<close> maps to row \<open>-1\<close>, outside the board; the validation loop
  does not return \<open>false\<close> there: it reads \<open>newGrid[-1][0]\<close> and throws a TypeError.
  The loop compares indices with \<open>GRID_SIZE\<close> only, never with \<open>0\<close>.
\<close>

theorem negative_row_anchor_counterexample:
  "SHAPES ! 0 \<in> set SHAPES \<and> occupiedOffset (shape (SHAPES ! 0)) 0 0 \<and>
   \<not> onBoard (- 1 + int 0) (0 + int 0) \<and>
   canPlace emptyGrid (- 1) 0 (shape (SHAPES ! 0)) = Inl TypeError \<and>
   canPlace emptyGrid (- 1) 0 (shape (SHAPES ! 0)) \<noteq> Inr False \<and>
   fst (placeBlock (- 1) 0 (SHAPES ! 0) 5 (initialGame 0 1 2)) = Inl TypeError"
proof -
  have "SHAPES ! 0 \<in> set SHAPES" by (simp add: SHAPES_def)
  moreover have "occupiedOffset (shape (SHAPES ! 0)) 0 0" by (simp add: SHAPES_def occupiedOffset_def)
  moreover have "\<not> onBoard (- 1 + int 0) (0 + int 0)" by (simp add: onBoard_def)
  moreover have "canPlace emptyGrid (- 1) 0 (shape (SHAPES ! 0)) = Inl TypeError" by code_simp
  moreover have "fst (placeBlock (- 1) 0 (SHAPES ! 0) 5 (initialGame 0 1 2)) = Inl TypeError"
    by code_simp
  ultimately show ?thesis by simp
qed

text \<open>
  C2, amended. For every shape of the catalog, every board and every integer anchor: if
  some occupied offset maps outside the board, the state after \<open>placeBlock\<close> is the state
  before it and the placement is not accepted; and when the anchor row is not negative
  (the anchor column may be) or the anchor column is \<open>GRID_SIZE\<close> or more, the validation
  loop returns \<open>false\<close> and throws nothing.
\<close>

theorem off_board_offset_rejected:
  assumes "b \<in> set SHAPES" and "wfGrid (grid s)"
    and "occupiedOffset (shape b) i j" and "\<not> onBoard (r + int i) (c + int j)"
  shows "snd (placeBlock r c b k s) = s \<and> fst (placeBlock r c b k s) \<noteq> Inr True \<and>
    (0 \<le> r \<or> int GRID_SIZE \<le> c \<longrightarrow>
       canPlace (grid s) r c (shape b) = Inr False \<and> placeBlock r c b k s = (Inr False, s))"
proof -
  have notTrue: "canPlace (grid s) r c (shape b) \<noteq> Inr True"
    using canPlace_True_onBoard [OF assms(2) _ assms(3), of r c] assms(4) by blast
  have part1: "snd (placeBlock r c b k s) = s \<and> fst (placeBlock r c b k s) \<noteq> Inr True"
    using assms(2)
  proof (cases rule: placeBlock_cases [of s r c b k])
    case (threw e)
    then show ?thesis by simp
  next
    case rejected
    then show ?thesis by simp
  next
    case (accepted pg s1)
    with notTrue show ?thesis by simp
  qed
  have part2: "canPlace (grid s) r c (shape b) = Inr False" if "0 \<le> r \<or> int GRID_SIZE \<le> c"
  proof (cases "0 \<le> r")
    case True
    then have "\<forall>i j. occupiedOffset (shape b) i j \<longrightarrow> 0 \<le> r + int i" by simp
    from canPlace_wf [OF assms(2) this, of c] have
      eq: "canPlace (grid s) r c (shape b) =
        Inr (\<forall>i j. occupiedOffset (shape b) i j \<longrightarrow> \<not> blockedAt (grid s) (r + int i) (c + int j))" .
    from assms(4) True have "blockedAt (grid s) (r + int i) (c + int j)"
      by (auto simp: onBoard_def blockedAt_def)
    with assms(3) eq show ?thesis by auto
  next
    case False
    with that have "int GRID_SIZE \<le> c" by simp
    with assms(1) show ?thesis by (rule canPlace_right_of_board)
  qed
  from part1 part2 show ?thesis by (auto simp: placeBlock_def)
qed

theorem off_board_offset_rejected_witness:
  "SHAPES ! 0 \<in> set SHAPES \<and> wfGrid (grid (initialGame 0 1 2)) \<and>
   occupiedOffset (shape (SHAPES ! 0)) 1 0 \<and> \<not> onBoard (2 + int 1) (- 1 + int 0) \<and>
   canPlace (grid (initialGame 0 1 2)) 2 (- 1) (shape (SHAPES ! 0)) = Inr False \<and>
   placeBlock 2 (- 1) (SHAPES ! 0) 5 (initialGame 0 1 2) = (Inr False, initialGame 0 1 2)"
proof -
  have h1: "SHAPES ! 0 \<in> set SHAPES" by (simp add: SHAPES_def)
  have h2: "wfGrid (grid (initialGame 0 1 2))" by (simp add: initialGame_def wfGrid_emptyGrid)
  have h3: "occupiedOffset (shape (SHAPES ! 0)) 1 0" by (simp add: SHAPES_def occupiedOffset_def)
  have h4: "\<not> onBoard (2 + int 1) (- 1 + int 0)" by (simp add: onBoard_def)
  have h5: "0 \<le> (2::int) \<or> int GRID_SIZE \<le> - 1" by simp
  from off_board_offset_rejected [OF h1 h2 h3 h4, of 5] h1 h2 h3 h4 h5
  show ?thesis by blast
qed

text \<open>
  C3. Detection runs on the grid as \<open>placeBlock\<close> wrote it, before any cell is cleared.
  When an accepted placement leaves exactly one full row \<open>y0\<close> and exactly one full column
  \<open>x0\<close> on that grid, the score grows by 400 and, in the grid after the call, every cell
  of row \<open>y0\<close> and of column \<open>x0\<close> is empty, their common cell included, and every
  other cell is as it was written.
\<close>

theorem full_row_and_column_clear_together:
  assumes "wfGrid (grid s)" and "place (grid s) r c b = Inr pg"
    and "fst (placeBlock r c b k s) = Inr True"
    and "fullRows pg = [y0]" and "fullCols pg = [x0]"
  shows "score (snd (placeBlock r c b k s)) = score s + 400 \<and>
    grid (snd (placeBlock r c b k s)) ! y0 ! x0 = None \<and>
    (\<forall>y < GRID_SIZE. \<forall>x < GRID_SIZE.
       grid (snd (placeBlock r c b k s)) ! y ! x = (if y = y0 \<or> x = x0 then None else pg ! y ! x))"
  using assms(1)
proof (cases rule: placeBlock_cases [of s r c b k])
  case (threw e)
  with assms(3) show ?thesis by simp
next
  case rejected
  with assms(3) show ?thesis by simp
next
  case (accepted pg' s1)
  with assms(2) have pg: "pg' = pg" by simp
  have rows: "rowFull pg y \<longleftrightarrow> y = y0" if "y < GRID_SIZE" for y
    using set_fullRows [of pg] assms(4) that by auto
  have cols: "colFull pg x \<longleftrightarrow> x = x0" if "x < GRID_SIZE" for x
    using set_fullCols [of pg] assms(5) that by auto
  have y0: "y0 < GRID_SIZE" using set_fullRows [of pg] assms(4) by auto
  have x0: "x0 < GRID_SIZE" using set_fullCols [of pg] assms(5) by auto
  from handleClears_wf [OF accepted(3), of "s\<lparr>grid := pg'\<rparr>"] accepted(4) pg assms(4,5)
  have sc: "score s1 = score s + 400"
    and cells: "\<forall>y < GRID_SIZE. \<forall>x < GRID_SIZE.
      grid s1 ! y ! x = (if rowFull pg y \<or> colFull pg x then None else pg ! y ! x)"
    by auto
  from cells rows cols have
    "\<forall>y < GRID_SIZE. \<forall>x < GRID_SIZE. grid s1 ! y ! x = (if y = y0 \<or> x = x0 then None else pg ! y ! x)"
    by simp
  moreover from this y0 x0 have "grid s1 ! y0 ! x0 = None" by simp
  ultimately show ?thesis using sc accepted(5) by (simp add: updateQueue_def)
qed

theorem full_row_and_column_clear_together_witness:
  "wfGrid (grid cornerGame) \<and>
   place (grid cornerGame) 0 0 (SHAPES ! 2) =
     Inr ((Some ''#51cf66'' # replicate 7 (Some ''#4dabf7'')) #
          (Some ''#51cf66'' # Some ''#51cf66'' # replicate 6 None) #
          replicate 6 (Some ''#20c997'' # replicate 7 None)) \<and>
   fst (placeBlock 0 0 (SHAPES ! 2) 5 cornerGame) = Inr True \<and>
   fullRows ((Some ''#51cf66'' # replicate 7 (Some ''#4dabf7'')) #
          (Some ''#51cf66'' # Some ''#51cf66'' # replicate 6 None) #
          replicate 6 (Some ''#20c997'' # replicate 7 None)) = [0] \<and>
   fullCols ((Some ''#51cf66'' # replicate 7 (Some ''#4dabf7'')) #
          (Some ''#51cf66'' # Some ''#51cf66'' # replicate 6 None) #
          replicate 6 (Some ''#20c997'' # replicate 7 None)) = [0] \<and>
   score (snd (placeBlock 0 0 (SHAPES ! 2) 5 cornerGame)) = score cornerGame + 400 \<and>
   grid (snd (placeBlock 0 0 (SHAPES ! 2) 5 cornerGame)) ! 0 ! 0 = None"
proof -
  let ?pg = "(Some ''#51cf66'' # replicate 7 (Some ''#4dabf7'')) #
          (Some ''#51cf66'' # Some ''#51cf66'' # replicate 6 None) #
          replicate 6 (Some ''#20c997'' # replicate 7 None)"
  have h1: "wfGrid (grid cornerGame)" by code_simp
  have h2: "place (grid cornerGame) 0 0 (SHAPES ! 2) = Inr ?pg" by code_simp
  have h3: "fst (placeBlock 0 0 (SHAPES ! 2) 5 cornerGame) = Inr True" by code_simp
  have h4: "fullRows ?pg = [0]" by code_simp
  have h5: "fullCols ?pg = [0]" by code_simp
  from full_row_and_column_clear_together [OF h1 h2 h3 h4 h5] h1 h2 h3 h4 h5
  show ?thesis by blast
qed

text \<open>
  C4. After an accepted placement the score has grown by 200 for each full row and each
  full column of the grid as \<open>placeBlock\<close> wrote it, with no other factor or bound. The
  cells of the full rows and columns are empty afterwards and the others are kept; with no
  full row or column the grid is the written one and the score is the old one.
\<close>

theorem score_is_200_per_full_line:
  assumes "wfGrid (grid s)" and "place (grid s) r c b = Inr pg"
    and "fst (placeBlock r c b k s) = Inr True"
  shows "score (snd (placeBlock r c b k s)) =
      score s + (int (length (fullRows pg)) + int (length (fullCols pg))) * 200 \<and>
    (\<forall>y < GRID_SIZE. \<forall>x < GRID_SIZE.
       grid (snd (placeBlock r c b k s)) ! y ! x =
         (if rowFull pg y \<or> colFull pg x then None else pg ! y ! x)) \<and>
    (fullRows pg = [] \<and> fullCols pg = [] \<longrightarrow>
       grid (snd (placeBlock r c b k s)) = pg \<and> score (snd (placeBlock r c b k s)) = score s)"
  using assms(1)
proof (cases rule: placeBlock_cases [of s r c b k])
  case (threw e)
  with assms(3) show ?thesis by simp
next
  case rejected
  with assms(3) show ?thesis by simp
next
  case (accepted pg' s1)
  with assms(2) have pg: "pg' = pg" by simp
  note hc = handleClears_wf [OF accepted(3), of "s\<lparr>grid := pg'\<rparr>"]
  from hc accepted(4) pg
  have sc: "score s1 = score s + (int (length (fullRows pg)) + int (length (fullCols pg))) * 200"
    and none: "fullRows pg = [] \<and> fullCols pg = [] \<longrightarrow> s1 = s\<lparr>grid := pg\<rparr>"
    by auto
  have cells: "grid s1 ! y ! x = (if rowFull pg y \<or> colFull pg x then None else pg ! y ! x)"
    if yx: "y < GRID_SIZE" "x < GRID_SIZE" for y x
  proof (cases "fullRows pg = [] \<and> fullCols pg = []")
    case True
    with yx set_fullRows [of pg] set_fullCols [of pg]
    have "\<not> rowFull pg y" "\<not> colFull pg x" by auto
    with True none show ?thesis by simp
  next
    case False
    with hc accepted(4) pg yx show ?thesis by auto
  qed
  from sc none cells accepted(5) show ?thesis by (simp add: updateQueue_def)
qed

theorem score_is_200_per_full_line_witness:
  "wfGrid (grid lineGame) \<and>
   place (grid lineGame) 0 4 (SHAPES ! 3) =
     Inr (replicate 8 (Some ''#ffa94d'') # replicate 7 (replicate 8 None)) \<and>
   fst (placeBlock 0 4 (SHAPES ! 3) 5 lineGame) = Inr True \<and>
   score (snd (placeBlock 0 4 (SHAPES ! 3) 5 lineGame)) = score lineGame + 200"
proof -
  let ?pg = "replicate 8 (Some ''#ffa94d'') # replicate 7 (replicate 8 None)"
  have h1: "wfGrid (grid lineGame)" by code_simp
  have h2: "place (grid lineGame) 0 4 (SHAPES ! 3) = Inr ?pg" by code_simp
  have h3: "fst (placeBlock 0 4 (SHAPES ! 3) 5 lineGame) = Inr True" by code_simp
  have r: "fullRows ?pg = [0]" by code_simp
  have c: "fullCols ?pg = []" by code_simp
  from score_is_200_per_full_line [OF h1 h2 h3] h1 h2 h3 show ?thesis
    unfolding r c by simp
qed

text \<open>
  C5, as stated for every anchor, fails in two ways. With a negative anchor column the
  validation loop returns \<open>false\<close> although none of the three conditions holds: the
  square at \<open>(2, -1)\<close> on the empty board is rejected because \<open>newGrid[2][-1]\<close> is
  \<open>undefined\<close>, which is not \<open>null\<close>. With a negative anchor row the loop does not
  return \<open>false\<close> although a target cell is occupied: the square at \<open>(-1, 0)\<close> on
  \<open>lineBoard\<close> has its offset \<open>(1, 0)\<close> on the coloured cell \<open>(0, 0)\<close>, but the loop
  reads \<open>newGrid[-1][0]\<close> first and throws a TypeError.
\<close>

theorem negative_index_counterexample:
  "canPlace emptyGrid 2 (- 1) (shape (SHAPES ! 0)) = Inr False \<and>
   \<not> (\<exists>i j. occupiedOffset (shape (SHAPES ! 0)) i j \<and>
         (int GRID_SIZE \<le> 2 + int i \<or> int GRID_SIZE \<le> - 1 + int j \<or>
          emptyGrid ! nat (2 + int i) ! nat (- 1 + int j) \<noteq> None)) \<and>
   occupiedOffset (shape (SHAPES ! 0)) 1 0 \<and>
   lineBoard ! nat (- 1 + int 1) ! nat (0 + int 0) \<noteq> None \<and>
   canPlace lineBoard (- 1) 0 (shape (SHAPES ! 0)) = Inl TypeError \<and>
   canPlace lineBoard (- 1) 0 (shape (SHAPES ! 0)) \<noteq> Inr False"
proof -
  have a: "canPlace emptyGrid 2 (- 1) (shape (SHAPES ! 0)) = Inr False" by code_simp
  have b: "\<not> (\<exists>i j. occupiedOffset (shape (SHAPES ! 0)) i j \<and>
         (int GRID_SIZE \<le> 2 + int i \<or> int GRID_SIZE \<le> - 1 + int j \<or>
          emptyGrid ! nat (2 + int i) ! nat (- 1 + int j) \<noteq> None))"
  proof
    assume "\<exists>i j. occupiedOffset (shape (SHAPES ! 0)) i j \<and>
         (int GRID_SIZE \<le> 2 + int i \<or> int GRID_SIZE \<le> - 1 + int j \<or>
          emptyGrid ! nat (2 + int i) ! nat (- 1 + int j) \<noteq> None)"
    then obtain i j where occ: "occupiedOffset (shape (SHAPES ! 0)) i j"
      and bad: "int GRID_SIZE \<le> 2 + int i \<or> int GRID_SIZE \<le> - 1 + int j \<or>
          emptyGrid ! nat (2 + int i) ! nat (- 1 + int j) \<noteq> None"
      by blast
    from occ have i: "i < 2" by (simp add: occupiedOffset_def SHAPES_def)
    with occ have j: "j < 2" by (auto simp: occupiedOffset_def SHAPES_def less_Suc_eq numeral_2_eq_2)
    from i j have "nat (2 + int i) < GRID_SIZE" "nat (- 1 + int j) < GRID_SIZE"
      by (simp_all add: GRID_SIZE_def)
    then have "emptyGrid ! nat (2 + int i) ! nat (- 1 + int j) = None"
      by (simp add: emptyGrid_def)
    with bad i j show False by (simp add: GRID_SIZE_def)
  qed
  have c: "occupiedOffset (shape (SHAPES ! 0)) 1 0" by code_simp
  have d: "lineBoard ! nat (- 1 + int 1) ! nat (0 + int 0) \<noteq> None" by code_simp
  have e: "canPlace lineBoard (- 1) 0 (shape (SHAPES ! 0)) = Inl TypeError" by code_simp
  from a b c d e show ?thesis by simp
qed

text \<open>
  C5, amended. On a board, for a shape and an anchor none of whose occupied offsets maps
  to a negative row or column index (as for every anchor a click supplies), the validation
  loop throws nothing and returns \<open>false\<close> exactly when some occupied offset \<open>(i, j)\<close>
  has \<open>r + i \<ge> GRID_SIZE\<close>, or \<open>c + j \<ge> GRID_SIZE\<close>, or a target cell that holds a
  colour; otherwise it returns \<open>true\<close>.
\<close>

theorem canPlace_false_exactly_when_blocked:
  assumes "wfGrid g"
    and "\<forall>i j. occupiedOffset sh i j \<longrightarrow> 0 \<le> r + int i \<and> 0 \<le> c + int j"
  shows "canPlace g r c sh =
    Inr (\<not> (\<exists>i j. occupiedOffset sh i j \<and>
         (int GRID_SIZE \<le> r + int i \<or> int GRID_SIZE \<le> c + int j \<or>
          g ! nat (r + int i) ! nat (c + int j) \<noteq> None)))"
proof -
  from assms(2) have "\<forall>i j. occupiedOffset sh i j \<longrightarrow> 0 \<le> r + int i" by simp
  from canPlace_wf [OF assms(1) this, of c] have
    "canPlace g r c sh =
      Inr (\<forall>i j. occupiedOffset sh i j \<longrightarrow> \<not> blockedAt g (r + int i) (c + int j))" .
  moreover have "blockedAt g (r + int i) (c + int j) =
      (int GRID_SIZE \<le> r + int i \<or> int GRID_SIZE \<le> c + int j \<or>
       g ! nat (r + int i) ! nat (c + int j) \<noteq> None)" if "occupiedOffset sh i j" for i j
  proof -
    from assms(2) that have "\<not> c + int j < 0" by (simp add: not_less)
    then show ?thesis by (simp add: blockedAt_def)
  qed
  ultimately show ?thesis by auto
qed

theorem canPlace_false_exactly_when_blocked_witness:
  "wfGrid lineBoard \<and> occupiedOffset (shape (SHAPES ! 0)) 0 0 \<and>
   lineBoard ! nat (0 + int 0) ! nat (3 + int 0) \<noteq> None \<and>
   canPlace lineBoard 0 3 (shape (SHAPES ! 0)) = Inr False"
proof -
  have h1: "wfGrid lineBoard" by code_simp
  have h2: "\<forall>i j. occupiedOffset (shape (SHAPES ! 0)) i j \<longrightarrow> 0 \<le> 0 + int i \<and> 0 \<le> 3 + int j"
    by simp
  have h3: "occupiedOffset (shape (SHAPES ! 0)) 0 0" by code_simp
  have h4: "lineBoard ! nat (0 + int 0) ! nat (3 + int 0) \<noteq> None" by code_simp
  have ex: "\<exists>i j. occupiedOffset (shape (SHAPES ! 0)) i j \<and>
      (int GRID_SIZE \<le> 0 + int i \<or> int GRID_SIZE \<le> 3 + int j \<or>
       lineBoard ! nat (0 + int i) ! nat (3 + int j) \<noteq> None)"
    using h3 h4 by blast
  have "canPlace lineBoard 0 3 (shape (SHAPES ! 0)) = Inr False"
    using canPlace_false_exactly_when_blocked [OF h1 h2] ex by (simp only: simp_thms)
  with h1 h3 h4 show ?thesis by (intro conjI)
qed

text \<open>
  C6. The queue holds three blocks at the start and in every state a session reaches;
  selecting leaves three, a placement attempt leaves three whether accepted or not, and
  after an accepted placement no block is selected.
\<close>

theorem queue_holds_three_blocks:
  assumes "reachable s"
  shows "length (queue (initialGame k1 k2 k3)) = 3 \<and>
    length (queue s) = 3 \<and>
    length (queue (select b' s)) = 3 \<and>
    length (queue (snd (placeBlock r c b k s))) = 3 \<and>
    (fst (placeBlock r c b k s) = Inr True \<longrightarrow> selected (snd (placeBlock r c b k s)) = None)"
proof -
  from assms have len: "length (queue s) = 3" by (auto dest: reachable_inv simp: gameInv_def)
  obtain res s' where eq: "placeBlock r c b k s = (res, s')" by (cases "placeBlock r c b k s")
  from placeBlock_frame(2,3) [OF eq] len eq show ?thesis
    by (simp add: initialGame_def select_def)
qed

theorem queue_holds_three_blocks_witness:
  "reachable (select (SHAPES ! 3) (initialGame 3 3 0)) \<and>
   fst (placeBlock 0 0 (SHAPES ! 3) 1 (select (SHAPES ! 3) (initialGame 3 3 0))) = Inr True \<and>
   length (queue (snd (placeBlock 0 0 (SHAPES ! 3) 1 (select (SHAPES ! 3) (initialGame 3 3 0))))) = 3 \<and>
   selected (snd (placeBlock 0 0 (SHAPES ! 3) 1 (select (SHAPES ! 3) (initialGame 3 3 0)))) = None"
proof -
  let ?s0 = "initialGame 3 3 0" and ?s1 = "select (SHAPES ! 3) (initialGame 3 3 0)"
  have "reachable ?s0" by (rule reachStart) (simp_all add: SHAPES_def)
  moreover have "step ?s0 ?s1" by (rule selectStep) (simp add: initialGame_def getRandomBlock_def)
  ultimately have h1: "reachable ?s1" by (rule reachStep)
  have h2: "fst (placeBlock 0 0 (SHAPES ! 3) 1 ?s1) = Inr True" by code_simp
  from queue_holds_three_blocks [OF h1, of 0 0 0 "SHAPES ! 3" 0 0 "SHAPES ! 3" 1] h1 h2
  show ?thesis by blast
qed

text \<open>
  C7. \<open>updateQueue\<close> drops the front of the queue and appends the drawn block at the
  back: a queue \<open>[q0, q1, q2]\<close> becomes \<open>[q1, q2, new]\<close>. An accepted placement does the
  same whichever block \<open>b\<close> was placed.
\<close>

theorem updateQueue_drops_front_appends_back:
  "queue (updateQueue k s) = drop 1 (queue s) @ [getRandomBlock k] \<and>
   (queue s = [q0, q1, q2] \<longrightarrow>
      queue (updateQueue k s) = [q1, q2, getRandomBlock k] \<and>
      (fst (placeBlock r c b k s) = Inr True \<longrightarrow>
         queue (snd (placeBlock r c b k s)) = [q1, q2, getRandomBlock k]))"
proof -
  obtain res s' where eq: "placeBlock r c b k s = (res, s')" by (cases "placeBlock r c b k s")
  from placeBlock_frame(3) [OF eq] eq show ?thesis by (simp add: updateQueue_def)
qed

theorem updateQueue_drops_front_appends_back_witness:
  "queue lineGame = [SHAPES ! 0, SHAPES ! 1, SHAPES ! 3] \<and>
   fst (placeBlock 0 4 (SHAPES ! 3) 5 lineGame) = Inr True \<and>
   queue (snd (placeBlock 0 4 (SHAPES ! 3) 5 lineGame)) = [SHAPES ! 1, SHAPES ! 3, getRandomBlock 5]"
proof -
  have h1: "queue lineGame = [SHAPES ! 0, SHAPES ! 1, SHAPES ! 3]" by (simp add: lineGame_def)
  have h2: "fst (placeBlock 0 4 (SHAPES ! 3) 5 lineGame) = Inr True" by code_simp
  from updateQueue_drops_front_appends_back
    [of 5 lineGame "SHAPES ! 0" "SHAPES ! 1" "SHAPES ! 3" 0 4 "SHAPES ! 3"] h1 h2
  show ?thesis by blast
qed

text \<open>
  C8. With no block selected, a click on a board cell does nothing: the handler throws
  no error, and the board, the score, the queue and the selection are what they were.
\<close>

theorem click_without_selection:
  assumes "selected s = None"
  shows "onCellClick r c k s = (None, s)"
  using assms by (simp add: onCellClick_def)

theorem click_without_selection_witness:
  "selected (initialGame 0 1 2) = None \<and>
   onCellClick 3 4 5 (initialGame 0 1 2) = (None, initialGame 0 1 2)"
proof -
  have h: "selected (initialGame 0 1 2) = None" by (simp add: initialGame_def)
  show ?thesis using h click_without_selection [OF h, of 3 4 5] by simp
qed

text \<open>
  C9. In every state a session reaches the board has no full row and no full column,
  and neither has the board after one more call of \<open>placeBlock\<close>, accepted or rejected.
\<close>

theorem no_full_line_after_placement:
  assumes "reachable s"
  shows "noFullLine (grid s) \<and> noFullLine (grid (snd (placeBlock r c b k s)))"
proof -
  from assms have "gameInv s" by (rule reachable_inv)
  from this placeBlock_inv [OF this, of r c b k] show ?thesis by (simp add: gameInv_def)
qed

theorem no_full_line_after_placement_witness:
  "reachable (snd (onCellClick (int 0) (int 4) 5 (select (SHAPES ! 3)
      (snd (onCellClick (int 0) (int 0) 1 (select (SHAPES ! 3) (initialGame 3 3 0))))))) \<and>
   noFullLine (grid (snd (onCellClick (int 0) (int 4) 5 (select (SHAPES ! 3)
      (snd (onCellClick (int 0) (int 0) 1 (select (SHAPES ! 3) (initialGame 3 3 0)))))))) \<and>
   score (snd (onCellClick (int 0) (int 4) 5 (select (SHAPES ! 3)
      (snd (onCellClick (int 0) (int 0) 1 (select (SHAPES ! 3) (initialGame 3 3 0))))))) = 200"
proof -
  let ?s0 = "initialGame 3 3 0"
  let ?s1 = "select (SHAPES ! 3) ?s0"
  let ?s2 = "snd (onCellClick (int 0) (int 0) 1 ?s1)"
  let ?s3 = "select (SHAPES ! 3) ?s2"
  let ?s4 = "snd (onCellClick (int 0) (int 4) 5 ?s3)"
  have r0: "reachable ?s0" by (rule reachStart) (simp_all add: SHAPES_def)
  have "SHAPES ! 3 \<in> set (queue ?s0)" by (simp add: initialGame_def getRandomBlock_def)
  then have "step ?s0 ?s1" by (rule selectStep)
  with r0 have r1: "reachable ?s1" by (rule reachStep)
  have "0 < length (grid ?s1)" "0 < length (grid ?s1 ! 0)" "1 < length SHAPES" by code_simp+
  then have "step ?s1 ?s2" by (rule clickStep)
  with r1 have r2: "reachable ?s2" by (rule reachStep)
  have "SHAPES ! 3 \<in> set (queue ?s2)" by code_simp
  then have "step ?s2 ?s3" by (rule selectStep)
  with r2 have r3: "reachable ?s3" by (rule reachStep)
  have "0 < length (grid ?s3)" "4 < length (grid ?s3 ! 0)" "5 < length SHAPES" by code_simp+
  then have "step ?s3 ?s4" by (rule clickStep)
  with r3 have r4: "reachable ?s4" by (rule reachStep)
  have sc: "score ?s4 = 200" by code_simp
  from no_full_line_after_placement [OF r4, of 0 0 "SHAPES ! 3" 0] r4 sc show ?thesis by blast
qed

text \<open>
  C10. The score starts at 0, is never negative in a state a session reaches, and no
  operation lowers it: selecting, \<open>placeBlock\<close> with any outcome, a click on a cell, and
  so every step of a session.
\<close>

theorem score_never_decreases:
  "score (initialGame k1 k2 k3) = 0 \<and>
   score s \<le> score (select b' s) \<and>
   score s \<le> score (snd (placeBlock r c b k s)) \<and>
   score s \<le> score (snd (onCellClick r c k s)) \<and>
   (step s s' \<longrightarrow> score s \<le> score s') \<and>
   (reachable s \<longrightarrow> 0 \<le> score s)"
proof -
  have place: "score s \<le> score (snd (placeBlock r c b k s))" for r c b k
  proof -
    obtain res s1 where eq: "placeBlock r c b k s = (res, s1)" by (cases "placeBlock r c b k s")
    from placeBlock_frame(1) [OF eq] eq show ?thesis by simp
  qed
  have click: "score s \<le> score (snd (onCellClick r c k s))" for r c k
  proof (cases "selected s")
    case None
    then show ?thesis by (simp add: onCellClick_def)
  next
    case (Some b0)
    then have "snd (onCellClick r c k s) = snd (placeBlock r c b0 k s)"
      by (simp add: onCellClick_def split: prod.splits sum.splits)
    with place [of r c b0 k] show ?thesis by simp
  qed
  have "score s \<le> score s'" if "step s s'"
    using that
  proof cases
    case (selectStep b0)
    then show ?thesis by (simp add: select_def)
  next
    case (clickStep r0 c0 k0)
    with click [of "int r0" "int c0" k0] show ?thesis by simp
  qed
  moreover have "0 \<le> score s" if "reachable s"
    using that by (auto dest: reachable_inv simp: gameInv_def)
  ultimately show ?thesis using place click by (simp add: initialGame_def select_def)
qed

theorem score_never_decreases_witness:
  "reachable (initialGame 3 3 0) \<and>
   step (initialGame 3 3 0) (select (SHAPES ! 3) (initialGame 3 3 0)) \<and>
   score (initialGame 3 3 0) \<le> score (select (SHAPES ! 3) (initialGame 3 3 0)) \<and>
   0 \<le> score (initialGame 3 3 0)"
proof -
  let ?s0 = "initialGame 3 3 0"
  have h1: "reachable ?s0" by (rule reachStart) (simp_all add: SHAPES_def)
  have "SHAPES ! 3 \<in> set (queue ?s0)" by (simp add: initialGame_def getRandomBlock_def)
  then have h2: "step ?s0 (select (SHAPES ! 3) ?s0)" by (rule selectStep)
  from score_never_decreases [of 3 3 0 ?s0 "SHAPES ! 3" 0 0 "SHAPES ! 3" 0 "select (SHAPES ! 3) ?s0"]
    h1 h2
  show ?thesis by blast
qed

end
